theory Spec2Isabelle
  imports Complex_Main "HOL-Library.Sublist"
begin

section \<open>Numbers\<close>

text \<open>
  Python floats are idealised as real numbers. \<open>round(x, 2)\<close> rounds to the nearest
  multiple of 1/100 and, on a tie, to the even one (Python rounds half to even).
\<close>

definition round_half_even :: "real \<Rightarrow> int" where
  "round_half_even x =
     (let f = \<lfloor>x\<rfloor>; d = x - of_int f
      in if d < 1 / 2 then f else if 1 / 2 < d then f + 1 else if even f then f else f + 1)"

definition round2 :: "real \<Rightarrow> real" where
  "round2 x = of_int (round_half_even (x * 100)) / 100"

section \<open>TrendService.calculate_trend_score\<close>

text \<open>
  \<^verbatim>\<open>normalized_mentions = min(content_mentions / 50.0 * 100, 100)
normalized_velocity = min(abs(velocity) / 5.0 * 100, 100) if velocity else 0
score = normalized_mentions * 0.4 + google_trends_score * 0.4 + normalized_velocity * 0.2
return round(score, 2)\<close>
  No operation of the body raises on real numbers, so the \<open>except\<close> branch (which
  returns 0.0) is never taken in this model.
\<close>

definition calculate_trend_score :: "int \<Rightarrow> real \<Rightarrow> real \<Rightarrow> real" where
  "calculate_trend_score content_mentions google_trends_score velocity =
     (let normalized_mentions = min (of_int content_mentions / 50 * 100) 100;
          normalized_velocity = (if velocity \<noteq> 0 then min (\<bar>velocity\<bar> / 5 * 100) 100 else 0);
          score = normalized_mentions * 0.4 + google_trends_score * 0.4 + normalized_velocity * 0.2
      in round2 score)"


section \<open>Errors\<close>

text \<open>
  Every \<open>except Exception\<close> of the source catches whatever the guarded block raises;
  the model keeps one constructor per origin of a failure.
\<close>

datatype error = StoreError | ProviderError | OverflowError | ValueError

section \<open>Text: character classes of Python's \<open>str\<close> and \<open>re\<close>\<close>

text \<open>
  A text is a list of code points below 256 (Latin-1). \<open>is_word\<close> is \<open>\w\<close>,
  \<open>is_space\<close> is \<open>\s\<close>, \<open>is_az\<close> is \<open>[a-z]\<close>, and \<open>lower\<close> is \<open>str.lower\<close>, each as
  Python defines it on these code points.
\<close>

definition is_az :: "char \<Rightarrow> bool" where
  "is_az c = (let n = (of_char c :: nat) in 97 \<le> n \<and> n \<le> 122)"

definition is_word :: "char \<Rightarrow> bool" where
  "is_word c =
     (let n = (of_char c :: nat)
      in (48 \<le> n \<and> n \<le> 57) \<or> (65 \<le> n \<and> n \<le> 90) \<or> n = 95 \<or> (97 \<le> n \<and> n \<le> 122)
         \<or> n = 170 \<or> n = 178 \<or> n = 179 \<or> n = 181 \<or> n = 185 \<or> n = 186
         \<or> (188 \<le> n \<and> n \<le> 190) \<or> (192 \<le> n \<and> n \<le> 214)
         \<or> (216 \<le> n \<and> n \<le> 246) \<or> (248 \<le> n \<and> n \<le> 255))"

definition is_space :: "char \<Rightarrow> bool" where
  "is_space c =
     (let n = (of_char c :: nat)
      in (9 \<le> n \<and> n \<le> 13) \<or> (28 \<le> n \<and> n \<le> 32) \<or> n = 133 \<or> n = 160)"

definition lower_char :: "char \<Rightarrow> char" where
  "lower_char c =
     (let n = (of_char c :: nat)
      in if (65 \<le> n \<and> n \<le> 90) \<or> (192 \<le> n \<and> n \<le> 214) \<or> (216 \<le> n \<and> n \<le> 222)
         then char_of (n + 32) else c)"

definition lower :: "string \<Rightarrow> string" where
  "lower s = map lower_char s"

text \<open>\<open>str(n)\<close> for an integer: decimal digits, with a leading minus sign.\<close>

definition digit_char :: "nat \<Rightarrow> char" where
  "digit_char d = char_of (48 + d)"

function str_nat :: "nat \<Rightarrow> string" where
  "str_nat n = (if n < 10 then [digit_char n] else str_nat (n div 10) @ [digit_char (n mod 10)])"
  by pat_completeness auto
termination
  by (relation "measure id") auto

declare str_nat.simps [simp del]

definition str_int :: "int \<Rightarrow> string" where
  "str_int i = (if i < 0 then CHR ''-'' # str_nat (nat (- i)) else str_nat (nat i))"

section \<open>KeywordExtractionService.extract_keywords_from_text\<close>

subsection \<open>\<open>re.sub(r'http\S+|www.\S+', '', text)\<close>\<close>

text \<open>
  \<open>match_url s\<close> matches the pattern at the head of \<open>s\<close> and returns what follows the
  match. Both alternatives end in a greedy \<open>\S+\<close>; the dot matches any character but
  the newline.
\<close>

definition match_url :: "string \<Rightarrow> string option" where
  "match_url s =
     (if prefix ''http'' s \<and> (case drop 4 s of [] \<Rightarrow> False | d # _ \<Rightarrow> \<not> is_space d)
      then Some (dropWhile (\<lambda>d. \<not> is_space d) (drop 4 s))
      else if prefix ''www'' s
      then (case drop 3 s of
              d # e # r \<Rightarrow>
                if d \<noteq> CHR 0x0A \<and> \<not> is_space e
                then Some (dropWhile (\<lambda>d. \<not> is_space d) (e # r)) else None
            | _ \<Rightarrow> None)
      else None)"

lemma match_url_shorter: "match_url s = Some r \<Longrightarrow> length r < length s"
proof -
  have d: "length (dropWhile P xs) \<le> length xs" for P and xs :: string
    by (rule length_dropWhile_le)
  assume a: "match_url s = Some r"
  show ?thesis
  proof (cases "prefix ''http'' s \<and> (case drop 4 s of [] \<Rightarrow> False | d # _ \<Rightarrow> \<not> is_space d)")
    case True
    then have r: "r = dropWhile (\<lambda>d. \<not> is_space d) (drop 4 s)"
      using a by (simp add: match_url_def)
    from True have "4 \<le> length s" by (auto simp: prefix_def)
    then have "length (drop 4 s) < length s" by simp
    then show ?thesis
      unfolding r using d [of "\<lambda>d. \<not> is_space d" "drop 4 s"] by linarith
  next
    case False
    then obtain d e t where dr: "drop 3 s = d # e # t"
      and r: "r = dropWhile (\<lambda>d. \<not> is_space d) (e # t)"
      using a by (auto simp: match_url_def split: if_splits list.splits)
    from dr have "length (drop 3 s) = Suc (Suc (length t))" by simp
    then have "length (e # t) < length s" by simp
    then show ?thesis
      unfolding r using d [of "\<lambda>d. \<not> is_space d" "e # t"] by linarith
  qed
qed

function strip_urls :: "string \<Rightarrow> string" where
  "strip_urls [] = []"
| "strip_urls (c # cs) =
     (case match_url (c # cs) of
        Some rest \<Rightarrow> strip_urls rest
      | None \<Rightarrow> c # strip_urls cs)"
  by pat_completeness auto
termination
  by (relation "measure length") (auto dest: match_url_shorter)

subsection \<open>\<open>re.findall(r'#\w+|@\w+|\b[a-z]{' + str(min_length) + r',}\b', text)\<close>\<close>

text \<open>
  The third alternative depends on \<open>str(min_length)\<close>. For \<open>0 \<le> min_length\<close> below the
  engine's bound \<open>MAXREPEAT\<close> (4294967295 in 64-bit CPython) it is the repetition
  \<open>[a-z]{n,}\<close>; at or above the bound compiling the pattern raises OverflowError
  (the repetition number is too large); for a negative min_length the braces are no
  repetition and the pattern is one letter followed by the literal text \<open>{-n,}\<close>.
\<close>

datatype word_pattern = Repeat nat | Literal string

definition MAXREPEAT :: int where
  "MAXREPEAT = 4294967295"

definition compile_words :: "int \<Rightarrow> error + word_pattern" where
  "compile_words min_length =
     (if min_length < 0 then Inr (Literal (''{'' @ str_int min_length @ '',}''))
      else if MAXREPEAT \<le> min_length then Inl OverflowError
      else Inr (Repeat (nat min_length)))"

text \<open>\<open>#\w+\<close> and \<open>@\w+\<close> at the head of \<open>s\<close>: the token and the rest.\<close>

definition match_tag :: "string \<Rightarrow> (string \<times> string) option" where
  "match_tag s =
     (case s of
        c # d # r \<Rightarrow>
          if (c = CHR ''#'' \<or> c = CHR ''@'') \<and> is_word d
          then Some (c # takeWhile is_word (d # r), dropWhile is_word (d # r)) else None
      | _ \<Rightarrow> None)"

text \<open>
  \<open>\b[a-z]{n,}\b\<close> with a non-empty match at the head of \<open>s\<close>; \<open>prev_word\<close> tells
  whether the character before the head is a word character. The greedy run is the
  only candidate: a shorter one ends before a letter, where \<open>\b\<close> fails.
\<close>

definition match_repeat :: "nat \<Rightarrow> bool \<Rightarrow> string \<Rightarrow> (string \<times> string) option" where
  "match_repeat n prev_word s =
     (let run = takeWhile is_az s; rest = dropWhile is_az s
      in if \<not> prev_word \<and> run \<noteq> [] \<and> n \<le> length run
            \<and> (case rest of [] \<Rightarrow> True | d # _ \<Rightarrow> \<not> is_word d)
         then Some (run, rest) else None)"

text \<open>\<open>\b[a-z]\<close> followed by the literal text \<open>lit\<close> (which ends in a brace) and \<open>\b\<close>.\<close>

definition match_literal :: "string \<Rightarrow> bool \<Rightarrow> string \<Rightarrow> (string \<times> string) option" where
  "match_literal lit prev_word s =
     (case s of
        [] \<Rightarrow> None
      | c # r \<Rightarrow>
          if \<not> prev_word \<and> is_az c \<and> prefix lit r
             \<and> (case drop (length lit) r of [] \<Rightarrow> False | d # _ \<Rightarrow> is_word d)
          then Some (c # lit, drop (length lit) r) else None)"

definition match_at :: "word_pattern \<Rightarrow> bool \<Rightarrow> string \<Rightarrow> (string \<times> string) option" where
  "match_at p prev_word s =
     (case match_tag s of
        Some m \<Rightarrow> Some m
      | None \<Rightarrow> (case p of Repeat n \<Rightarrow> match_repeat n prev_word s
                         | Literal lit \<Rightarrow> match_literal lit prev_word s))"

text \<open>
  With \<open>min_length = 0\<close> the third alternative also matches the empty string at every
  word boundary where nothing longer matches; \<open>findall\<close> reports it as \<open>''\<close>.
\<close>

definition empty_match :: "word_pattern \<Rightarrow> bool \<Rightarrow> bool \<Rightarrow> string list" where
  "empty_match p prev_word next_word =
     (if p = Repeat 0 \<and> prev_word \<noteq> next_word then [[]] else [])"

lemma match_tag_shorter: "match_tag s = Some (tok, r) \<Longrightarrow> length r < length s"
proof -
  assume a: "match_tag s = Some (tok, r)"
  then obtain c d t where s: "s = c # d # t" and r: "r = dropWhile is_word (d # t)"
    by (auto simp: match_tag_def split: list.splits if_splits)
  have "length (dropWhile is_word (d # t)) \<le> length (d # t)"
    by (rule length_dropWhile_le)
  then show ?thesis by (simp add: s r)
qed

lemma match_repeat_shorter: "match_repeat n pw s = Some (tok, r) \<Longrightarrow> length r < length s"
proof -
  assume a: "match_repeat n pw s = Some (tok, r)"
  then have t: "takeWhile is_az s \<noteq> []" and r: "r = dropWhile is_az s"
    by (auto simp: match_repeat_def Let_def split: if_splits)
  have "length (takeWhile is_az s) + length (dropWhile is_az s) = length s"
    by (metis length_append takeWhile_dropWhile_id)
  moreover obtain x xs where "takeWhile is_az s = x # xs"
    using t by (cases "takeWhile is_az s") auto
  then have "length (takeWhile is_az s) = Suc (length xs)" by simp
  ultimately show ?thesis unfolding r by linarith
qed

lemma match_literal_shorter: "match_literal lit pw s = Some (tok, r) \<Longrightarrow> length r < length s"
  by (auto simp: match_literal_def split: list.splits if_splits)

lemma match_at_shorter: "match_at p pw s = Some (tok, r) \<Longrightarrow> length r < length s"
  by (auto simp: match_at_def split: option.splits word_pattern.splits
      dest: match_tag_shorter match_repeat_shorter match_literal_shorter)

text \<open>
  The scan: at each position the leftmost match is taken and the scan goes on behind
  it; where nothing matches it moves on by one character.
\<close>

function findall :: "word_pattern \<Rightarrow> bool \<Rightarrow> string \<Rightarrow> string list" where
  "findall p prev_word [] = empty_match p prev_word False"
| "findall p prev_word (c # cs) =
     (case match_at p prev_word (c # cs) of
        Some (tok, rest) \<Rightarrow> tok # findall p (is_word (last tok)) rest
      | None \<Rightarrow> empty_match p prev_word (is_word c) @ findall p (is_word c) cs)"
  by pat_completeness auto
termination
  by (relation "measure (\<lambda>(p, pw, s). length s)") (auto dest: match_at_shorter)

subsection \<open>Stop words, \<open>Counter\<close> and \<open>most_common\<close>\<close>

definition stop_words :: "string list" where
  "stop_words =
     [''the'', ''be'', ''to'', ''of'', ''and'', ''a'', ''in'', ''that'', ''have'', ''i'',
      ''it'', ''for'', ''not'', ''on'', ''with'', ''he'', ''as'', ''you'', ''do'', ''at'',
      ''this'', ''but'', ''his'', ''by'', ''from'', ''they'', ''we'', ''say'', ''her'', ''she'',
      ''or'', ''an'', ''will'', ''my'', ''one'', ''all'', ''would'', ''there'', ''their'',
      ''what'', ''so'', ''up'', ''out'', ''if'', ''about'', ''who'', ''get'', ''which'', ''go'',
      ''me'', ''when'', ''make'', ''can'', ''like'', ''time'', ''no'', ''just'', ''him'', ''know'',
      ''take'', ''people'', ''into'', ''year'', ''your'', ''good'', ''some'', ''could'', ''them'',
      ''see'', ''other'', ''than'', ''then'', ''now'', ''look'', ''only'', ''come'', ''its'', ''over'',
      ''think'', ''also'', ''back'', ''after'', ''use'', ''two'', ''how'', ''our'', ''work'', ''first'',
      ''well'', ''way'', ''even'', ''new'', ''want'', ''because'', ''any'', ''these'', ''give'', ''day'',
      ''most'', ''us'', ''is'', ''was'', ''are'', ''been'', ''has'', ''had'', ''were'', ''said'', ''did'',
      ''having'', ''may'', ''should'', ''am'', ''being'', ''does'', ''did'', ''doing'']"

text \<open>
  A \<open>Counter\<close> keeps its keys in first-seen order; \<open>most_common(n)\<close> is the first
  \<open>n\<close> entries of the stable sort by descending count (none for \<open>n \<le> 0\<close>).
\<close>

fun counter_add :: "'a \<Rightarrow> ('a \<times> nat) list \<Rightarrow> ('a \<times> nat) list" where
  "counter_add k [] = [(k, 1)]"
| "counter_add k ((k', c) # r) = (if k = k' then (k', c + 1) # r else (k', c) # counter_add k r)"

definition Counter :: "'a list \<Rightarrow> ('a \<times> nat) list" where
  "Counter xs = fold counter_add xs []"

definition most_common :: "int \<Rightarrow> ('a \<times> nat) list \<Rightarrow> ('a \<times> nat) list" where
  "most_common n cs = take (nat n) (sort_key (\<lambda>kc. - int (snd kc)) cs)"

subsection \<open>The function\<close>

definition is_tag :: "string \<Rightarrow> bool" where
  "is_tag w = (case w of [] \<Rightarrow> False | c # _ \<Rightarrow> c = CHR ''#'' \<or> c = CHR ''@'')"

definition keep_word :: "string \<Rightarrow> bool" where
  "keep_word w = (is_tag w \<or> w \<notin> set stop_words)"

text \<open>The body of the \<open>try\<close> block; \<open>None\<close> is a missing text.\<close>

definition extract_keywords_try :: "string option \<Rightarrow> int \<Rightarrow> int \<Rightarrow> error + string list" where
  "extract_keywords_try text min_length max_keywords =
     (case text of
        None \<Rightarrow> Inr []
      | Some t \<Rightarrow>
          if t = [] then Inr []
          else
            (let t1 = lower t; t2 = strip_urls t1
             in case compile_words min_length of
                  Inl e \<Rightarrow> Inl e
                | Inr p \<Rightarrow>
                    (let words = findall p False t2;
                         keywords = filter keep_word words;
                         word_counts = Counter keywords
                     in Inr (map fst (most_common max_keywords word_counts)))))"

definition extract_keywords_from_text :: "string option \<Rightarrow> int \<Rightarrow> int \<Rightarrow> error + string list" where
  "extract_keywords_from_text text min_length max_keywords =
     (case extract_keywords_try text min_length max_keywords of
        Inl e \<Rightarrow> Inr []
      | Inr ks \<Rightarrow> Inr ks)"

section \<open>GoogleTrendsService\<close>

text \<open>
  The pytrends client is outside the repository. Its answer to the \<open>k\<close>-th request of a
  call, for a keyword list, is either an exception (\<open>build_payload\<close> or
  \<open>interest_over_time\<close> raised, or the client was never initialised) or a data frame;
  of a data frame the code reads whether it is empty, which columns it has and the mean
  of a column.
\<close>

record dataframe =
  df_empty :: bool
  df_columns :: "(string \<times> real) list"

type_synonym pytrends = "nat \<Rightarrow> string list \<Rightarrow> error + dataframe"

type_synonym scores = "string \<rightharpoonup> real"

text \<open>\<open>{kw: f(kw) for kw in keywords}\<close>, and the loop that assigns \<open>results[keyword]\<close>.\<close>

definition dict_of :: "(string \<Rightarrow> real) \<Rightarrow> string list \<Rightarrow> scores" where
  "dict_of f keywords = fold (\<lambda>kw m. m(kw \<mapsto> f kw)) keywords Map.empty"

definition column_score :: "dataframe \<Rightarrow> string \<Rightarrow> real" where
  "column_score interest_df keyword =
     (case map_of (df_columns interest_df) keyword of
        Some avg_interest \<Rightarrow> round2 avg_interest
      | None \<Rightarrow> 0)"

definition interest_try :: "pytrends \<Rightarrow> nat \<Rightarrow> string list \<Rightarrow> error + scores" where
  "interest_try client k keywords =
     (if keywords = [] then Inr Map.empty
      else
        (let keywords = take 5 keywords
         in case client k keywords of
              Inl e \<Rightarrow> Inl e
            | Inr interest_df \<Rightarrow>
                if df_empty interest_df then Inr (dict_of (\<lambda>kw. 0) keywords)
                else Inr (dict_of (column_score interest_df) keywords)))"

definition get_interest_over_time :: "pytrends \<Rightarrow> nat \<Rightarrow> string list \<Rightarrow> error + scores" where
  "get_interest_over_time client k keywords =
     (case interest_try client k keywords of
        Inl e \<Rightarrow> Inr (dict_of (\<lambda>kw. 0) (take 5 keywords))
      | Inr results \<Rightarrow> Inr results)"

text \<open>
  The loop \<open>for i in range(0, len(keywords), 5)\<close>; the batch at offset \<open>i\<close> is request
  number \<open>i div 5\<close>. The two-second sleep between batches has no effect on the result.
\<close>

function batch_loop :: "pytrends \<Rightarrow> string list \<Rightarrow> nat \<Rightarrow> scores \<Rightarrow> error + scores" where
  "batch_loop client keywords i results =
     (if i < length keywords
      then (let batch = take 5 (drop i keywords)
            in case get_interest_over_time client (i div 5) batch of
                 Inl e \<Rightarrow> Inl e
               | Inr batch_results \<Rightarrow> batch_loop client keywords (i + 5) (results ++ batch_results))
      else Inr results)"
  by pat_completeness auto
termination
  by (relation "measure (\<lambda>(client, keywords, i, results). length keywords - i)") auto

declare batch_loop.simps [simp del]

definition batch_try :: "pytrends \<Rightarrow> string list \<Rightarrow> error + scores" where
  "batch_try client keywords =
     (if keywords = [] then Inr Map.empty else batch_loop client keywords 0 Map.empty)"

definition batch_get_interest :: "pytrends \<Rightarrow> string list \<Rightarrow> error + scores" where
  "batch_get_interest client keywords =
     (case batch_try client keywords of
        Inl e \<Rightarrow> Inr (dict_of (\<lambda>kw. 0) keywords)
      | Inr results \<Rightarrow> Inr results)"

section \<open>The database\<close>

text \<open>
  The Supabase tables \<open>content\<close> and \<open>trends\<close>, with the columns the services read and
  write. Timestamps are seconds on one clock. Identifiers of trend rows are issued by
  the database. Every \<open>execute()\<close> is one round trip that may fail: \<open>faults\<close> is the
  schedule of the coming round trips (\<open>True\<close>: the request raises and changes nothing;
  an exhausted schedule means no more failures).
\<close>

record content_row =
  content_id :: string
  content_user_id :: string
  title :: "string option"
  body :: "string option"
  content_created_at :: int

record trend_row =
  trend_id :: nat
  trend_user_id :: string
  keyword :: string
  score :: real
  google_trends_score :: real
  content_mentions :: nat
  velocity :: real
  related_content_ids :: "string list"
  detected_at :: int
  trend_created_at :: int

record store =
  content :: "content_row list"
  trends :: "trend_row list"
  next_id :: nat
  faults :: "bool list"

text \<open>
  A computation on the store either returns a value or raises; both leave a store
  behind. \<open>try_except\<close> is \<open>try: ... except Exception: ...\<close>.
\<close>

type_synonym 'a io = "store \<Rightarrow> (error + 'a) \<times> store"

definition io_return :: "'a \<Rightarrow> 'a io" where
  "io_return x = (\<lambda>s. (Inr x, s))"

definition io_raise :: "error \<Rightarrow> 'a io" where
  "io_raise e = (\<lambda>s. (Inl e, s))"

definition io_bind :: "'a io \<Rightarrow> ('a \<Rightarrow> 'b io) \<Rightarrow> 'b io" where
  "io_bind m f = (\<lambda>s. case m s of (Inl e, s') \<Rightarrow> (Inl e, s') | (Inr x, s') \<Rightarrow> f x s')"

definition try_except :: "'a io \<Rightarrow> (error \<Rightarrow> 'a io) \<Rightarrow> 'a io" where
  "try_except m handler =
     (\<lambda>s. case m s of (Inl e, s') \<Rightarrow> handler e s' | (Inr x, s') \<Rightarrow> (Inr x, s'))"

definition execute :: "(store \<Rightarrow> 'a \<times> store) \<Rightarrow> 'a io" where
  "execute query s =
     (case faults s of
        [] \<Rightarrow> (case query s of (x, s') \<Rightarrow> (Inr x, s'))
      | failed # rest \<Rightarrow>
          if failed then (Inl StoreError, s\<lparr>faults := rest\<rparr>)
          else (case query (s\<lparr>faults := rest\<rparr>) of (x, s') \<Rightarrow> (Inr x, s')))"

definition select_content :: "(content_row \<Rightarrow> bool) \<Rightarrow> content_row list io" where
  "select_content P = execute (\<lambda>s. (filter P (content s), s))"

definition select_trends :: "(trend_row \<Rightarrow> bool) \<Rightarrow> trend_row list io" where
  "select_trends P = execute (\<lambda>s. (filter P (trends s), s))"

text \<open>\<open>.order('score', desc=True).limit(limit)\<close>; rows of equal score keep table order.\<close>

definition select_top_trends :: "(trend_row \<Rightarrow> bool) \<Rightarrow> nat \<Rightarrow> trend_row list io" where
  "select_top_trends P limit =
     execute (\<lambda>s. (take limit (sort_key (\<lambda>r. - score r) (filter P (trends s))), s))"

definition update_trends :: "(trend_row \<Rightarrow> bool) \<Rightarrow> (trend_row \<Rightarrow> trend_row) \<Rightarrow> unit io" where
  "update_trends P f = execute (\<lambda>s. ((), s\<lparr>trends := map (\<lambda>r. if P r then f r else r) (trends s)\<rparr>))"

definition insert_trend :: "trend_row \<Rightarrow> unit io" where
  "insert_trend row =
     execute (\<lambda>s. ((), s\<lparr>trends := trends s @ [row\<lparr>trend_id := next_id s\<rparr>],
                         next_id := Suc (next_id s)\<rparr>))"

text \<open>
  What a call sees of the world outside the store: the clock (\<open>datetime.now()\<close>), the
  pytrends client, which strings \<open>UUID(...)\<close> accepts, and which stored trend rows pass
  the per-item parsing of get_top_trends (\<open>datetime.fromisoformat\<close>, \<open>UUID(...)\<close> and
  the validation of \<open>TrendResponse\<close>).
\<close>

record env =
  now :: int
  pytrends_client :: pytrends
  valid_uuid :: "string \<Rightarrow> bool"
  parses :: "trend_row \<Rightarrow> bool"

definition days :: "int \<Rightarrow> int" where
  "days n = n * 86400"

section \<open>KeywordExtractionService.extract_keywords_from_content\<close>

type_synonym keyword_map = "(string \<times> string list) list"

fun map_append :: "string \<Rightarrow> string \<Rightarrow> keyword_map \<Rightarrow> keyword_map" where
  "map_append k v [] = [(k, [v])]"
| "map_append k v ((k', vs) # r) =
     (if k = k' then (k', vs @ [v]) # r else (k', vs) # map_append k v r)"

definition item_text :: "content_row \<Rightarrow> string" where
  "item_text item =
     (case title item of Some t \<Rightarrow> if t \<noteq> [] then t @ '' '' else [] | None \<Rightarrow> [])
     @ (case body item of Some b \<Rightarrow> b | None \<Rightarrow> [])"

text \<open>One pass of the loop over the rows; \<open>UUID(item['id'])\<close> is evaluated per keyword.\<close>

definition add_item :: "env \<Rightarrow> content_row \<Rightarrow> keyword_map \<Rightarrow> error + keyword_map" where
  "add_item e item keyword_content_map =
     (case extract_keywords_from_text (Some (item_text item)) 3 20 of
        Inl x \<Rightarrow> Inl x
      | Inr keywords \<Rightarrow>
          if keywords = [] then Inr keyword_content_map
          else if valid_uuid e (content_id item)
          then Inr (fold (\<lambda>k. map_append k (content_id item)) keywords keyword_content_map)
          else Inl ValueError)"

fun add_items :: "env \<Rightarrow> content_row list \<Rightarrow> keyword_map \<Rightarrow> error + keyword_map" where
  "add_items e [] m = Inr m"
| "add_items e (item # items) m =
     (case add_item e item m of Inl x \<Rightarrow> Inl x | Inr m' \<Rightarrow> add_items e items m')"

text \<open>
  Filter by minimum mentions and sort by mention count, descending and stable;
  \<open>list(set(content_ids))\<close> is modelled by \<open>remdups\<close> (Python leaves its order open).
\<close>

definition trending_of :: "int \<Rightarrow> keyword_map \<Rightarrow> (string \<times> nat \<times> string list) list" where
  "trending_of min_mentions m =
     sort_key (\<lambda>t. - int (fst (snd t)))
       (map (\<lambda>(k, ids). (k, length ids, remdups ids))
          (filter (\<lambda>(k, ids). min_mentions \<le> int (length ids)) m))"

definition extract_content_try ::
  "env \<Rightarrow> string \<Rightarrow> int \<Rightarrow> int \<Rightarrow> (string \<times> nat \<times> string list) list io" where
  "extract_content_try e user_id n_days min_mentions =
     io_bind
       (select_content (\<lambda>r. content_user_id r = user_id
                             \<and> now e - days n_days \<le> content_created_at r))
       (\<lambda>data.
          if data = [] then io_return []
          else (case add_items e data [] of
                  Inl x \<Rightarrow> io_raise x
                | Inr m \<Rightarrow> io_return (trending_of min_mentions m)))"

definition extract_keywords_from_content ::
  "env \<Rightarrow> string \<Rightarrow> int \<Rightarrow> int \<Rightarrow> (string \<times> nat \<times> string list) list io" where
  "extract_keywords_from_content e user_id n_days min_mentions =
     try_except (extract_content_try e user_id n_days min_mentions) (\<lambda>x. io_return [])"

section \<open>TrendService\<close>

subsection \<open>calculate_velocity\<close>

text \<open>The f-string \<open>f"{item.get('title', '')} {item.get('body', '')}"\<close>: a null column prints as \<open>None\<close>.\<close>

definition fstr :: "string option \<Rightarrow> string" where
  "fstr v = (case v of None \<Rightarrow> ''None'' | Some t \<Rightarrow> t)"

definition mentions :: "string \<Rightarrow> content_row list \<Rightarrow> nat" where
  "mentions kw rows =
     length (filter (\<lambda>item. sublist (lower kw) (lower (fstr (title item) @ '' '' @ fstr (body item))))
               rows)"

definition velocity_of :: "nat \<Rightarrow> nat \<Rightarrow> real" where
  "velocity_of recent_mentions older_mentions =
     (let velocity =
            (if older_mentions = 0
             then (if 0 < recent_mentions then real recent_mentions else 0)
             else (real recent_mentions - real older_mentions) / real older_mentions)
      in round2 velocity)"

definition velocity_try :: "env \<Rightarrow> string \<Rightarrow> string \<Rightarrow> real io" where
  "velocity_try e user_id kw =
     (let recent_cutoff = now e - days 3; older_cutoff = now e - days 7
      in io_bind
           (select_content (\<lambda>r. content_user_id r = user_id
                                 \<and> recent_cutoff \<le> content_created_at r))
           (\<lambda>recent.
              io_bind
                (select_content (\<lambda>r. content_user_id r = user_id
                                      \<and> older_cutoff \<le> content_created_at r
                                      \<and> content_created_at r < recent_cutoff))
                (\<lambda>older. io_return (velocity_of (mentions kw recent) (mentions kw older)))))"

definition calculate_velocity :: "env \<Rightarrow> string \<Rightarrow> string \<Rightarrow> real io" where
  "calculate_velocity e user_id kw = try_except (velocity_try e user_id kw) (\<lambda>x. io_return 0)"

subsection \<open>detect_trends\<close>

record trend_data =
  td_keyword :: string
  td_score :: real
  td_google_trends_score :: real
  td_content_mentions :: nat
  td_velocity :: real
  td_related_content_ids :: "string list"

fun score_keywords ::
  "env \<Rightarrow> string \<Rightarrow> scores \<Rightarrow> (string \<times> nat \<times> string list) list \<Rightarrow> trend_data list io" where
  "score_keywords e user_id google_scores [] = io_return []"
| "score_keywords e user_id google_scores ((kw, mention_count, content_ids) # rest) =
     io_bind (calculate_velocity e user_id kw)
       (\<lambda>v.
          let google_score = (case google_scores kw of Some g \<Rightarrow> g | None \<Rightarrow> 0);
              trend_score = calculate_trend_score (int mention_count) google_score v
          in io_bind (score_keywords e user_id google_scores rest)
               (\<lambda>trends.
                  io_return
                    (\<lparr>td_keyword = kw, td_score = trend_score,
                      td_google_trends_score = google_score,
                      td_content_mentions = mention_count, td_velocity = v,
                      td_related_content_ids = content_ids\<rparr> # trends)))"

definition detect_try :: "env \<Rightarrow> string \<Rightarrow> nat \<Rightarrow> trend_data list io" where
  "detect_try e user_id max_trends =
     io_bind (extract_keywords_from_content e user_id 7 2)
       (\<lambda>trending_keywords.
          if trending_keywords = [] then io_return []
          else
            (let top_keywords = map fst (take (max_trends * 2) trending_keywords)
             in case batch_get_interest (pytrends_client e) (take 20 top_keywords) of
                  Inl x \<Rightarrow> io_raise x
                | Inr google_scores \<Rightarrow>
                    io_bind
                      (score_keywords e user_id google_scores
                         (take (max_trends * 2) trending_keywords))
                      (\<lambda>trends.
                         io_return (take max_trends (sort_key (\<lambda>t. - td_score t) trends)))))"

definition detect_trends :: "env \<Rightarrow> string \<Rightarrow> nat \<Rightarrow> trend_data list io" where
  "detect_trends e user_id max_trends =
     try_except (detect_try e user_id max_trends) (\<lambda>x. io_return [])"

subsection \<open>save_trends\<close>

definition updated_row :: "trend_data \<Rightarrow> int \<Rightarrow> trend_row \<Rightarrow> trend_row" where
  "updated_row td detected r =
     r\<lparr>score := td_score td, google_trends_score := td_google_trends_score td,
       content_mentions := td_content_mentions td, velocity := td_velocity td,
       related_content_ids := td_related_content_ids td, detected_at := detected\<rparr>"

definition new_row :: "string \<Rightarrow> trend_data \<Rightarrow> int \<Rightarrow> trend_row" where
  "new_row user_id td detected =
     \<lparr>trend_id = 0, trend_user_id = user_id, keyword = td_keyword td, score = td_score td,
      google_trends_score = td_google_trends_score td,
      content_mentions = td_content_mentions td, velocity = td_velocity td,
      related_content_ids = td_related_content_ids td, detected_at = detected,
      trend_created_at = detected\<rparr>"

text \<open>The body of the inner \<open>try\<close>: look the keyword up, then update or insert.\<close>

definition save_one_try :: "env \<Rightarrow> string \<Rightarrow> trend_data \<Rightarrow> nat io" where
  "save_one_try e user_id td =
     io_bind (select_trends (\<lambda>r. trend_user_id r = user_id \<and> keyword r = td_keyword td))
       (\<lambda>existing.
          case existing of
            first # _ \<Rightarrow>
              io_bind (update_trends (\<lambda>r. trend_id r = trend_id first) (updated_row td (now e)))
                (\<lambda>_. io_return 1)
          | [] \<Rightarrow>
              io_bind (insert_trend (new_row user_id td (now e))) (\<lambda>_. io_return 1))"

definition save_one :: "env \<Rightarrow> string \<Rightarrow> trend_data \<Rightarrow> nat io" where
  "save_one e user_id td = try_except (save_one_try e user_id td) (\<lambda>x. io_return 0)"

fun save_loop :: "env \<Rightarrow> string \<Rightarrow> trend_data list \<Rightarrow> nat \<Rightarrow> nat io" where
  "save_loop e user_id [] saved_count = io_return saved_count"
| "save_loop e user_id (td # tds) saved_count =
     io_bind (save_one e user_id td) (\<lambda>n. save_loop e user_id tds (saved_count + n))"

definition save_trends :: "env \<Rightarrow> string \<Rightarrow> trend_data list \<Rightarrow> nat io" where
  "save_trends e user_id trend_list =
     try_except (if trend_list = [] then io_return 0 else save_loop e user_id trend_list 0)
       (\<lambda>x. io_return 0)"

subsection \<open>get_top_trends\<close>

definition get_top_try :: "env \<Rightarrow> string \<Rightarrow> nat \<Rightarrow> trend_row list io" where
  "get_top_try e user_id limit =
     io_bind
       (select_top_trends (\<lambda>r. trend_user_id r = user_id \<and> now e - days 7 \<le> detected_at r) limit)
       (\<lambda>data. if data = [] then io_return [] else io_return (filter (parses e) data))"

definition get_top_trends :: "env \<Rightarrow> string \<Rightarrow> nat \<Rightarrow> trend_row list io" where
  "get_top_trends e user_id limit = try_except (get_top_try e user_id limit) (\<lambda>x. io_return [])"

subsection \<open>detect_and_save_trends\<close>

record summary =
  detected :: nat
  saved :: nat
  top_3 :: "(string \<times> real) list"

definition detect_and_save_try :: "env \<Rightarrow> string \<Rightarrow> summary io" where
  "detect_and_save_try e user_id =
     io_bind (detect_trends e user_id 10)
       (\<lambda>trend_list.
          if trend_list = [] then io_return \<lparr>detected = 0, saved = 0, top_3 = []\<rparr>
          else
            io_bind (save_trends e user_id trend_list)
              (\<lambda>saved_count.
                 io_bind (get_top_trends e user_id 3)
                   (\<lambda>top.
                      io_return
                        \<lparr>detected = length trend_list, saved = saved_count,
                         top_3 = map (\<lambda>t. (keyword t, score t)) top\<rparr>)))"

definition detect_and_save_trends :: "env \<Rightarrow> string \<Rightarrow> summary io" where
  "detect_and_save_trends e user_id =
     try_except (detect_and_save_try e user_id)
       (\<lambda>x. io_return \<lparr>detected = 0, saved = 0, top_3 = []\<rparr>)"

section \<open>Rounding lemmas\<close>



lemma round_half_even_of_int [simp]: "round_half_even (of_int n) = n"
  by (simp add: round_half_even_def)


section \<open>Scoring\<close>





section \<open>Properties of the keyword extraction\<close>

lemma counter_add_keys: "fst ` set (counter_add k cs) = insert k (fst ` set cs)"
  by (induction k cs rule: counter_add.induct) auto

lemma fold_counter_add_keys: "fst ` set (fold counter_add xs cs) = set xs \<union> fst ` set cs"
  by (induction xs arbitrary: cs) (auto simp: counter_add_keys)

lemma Counter_keys: "fst ` set (Counter xs) = set xs"
  by (simp add: Counter_def fold_counter_add_keys)

lemma most_common_subset: "set (most_common n cs) \<subseteq> set cs"
proof -
  have "set (take (nat n) (sort_key (\<lambda>kc. - int (snd kc)) cs)) \<subseteq> set (sort_key (\<lambda>kc. - int (snd kc)) cs)"
    by (rule set_take_subset)
  then show ?thesis by (simp add: most_common_def)
qed



lemma ranked_subset: "set (map fst (most_common n (Counter (filter P ws)))) \<subseteq> {w \<in> set ws. P w}"
proof -
  have "fst ` set (most_common n (Counter (filter P ws))) \<subseteq> fst ` set (Counter (filter P ws))"
    using most_common_subset by (rule image_mono)
  then show ?thesis by (simp add: Counter_keys)
qed

text \<open>
  What a token of the scan looks like: a hashtag or mention, or a match of the third
  alternative of the pattern.
\<close>

definition token_ok :: "word_pattern \<Rightarrow> string \<Rightarrow> bool" where
  "token_ok p w =
     (is_tag w \<or>
      (case p of Repeat n \<Rightarrow> (w = [] \<and> n = 0) \<or> (w \<noteq> [] \<and> n \<le> length w \<and> list_all is_az w)
               | Literal lit \<Rightarrow> (\<exists>c. is_az c \<and> w = c # lit)))"

lemma match_tag_is_tag: "match_tag s = Some (tok, r) \<Longrightarrow> is_tag tok"
  by (auto simp: match_tag_def is_tag_def split: list.splits if_splits)

lemma match_repeat_token:
  "match_repeat n pw s = Some (tok, r) \<Longrightarrow> tok \<noteq> [] \<and> n \<le> length tok \<and> list_all is_az tok"
  by (auto simp: match_repeat_def Let_def list_all_iff split: if_splits dest: set_takeWhileD)

lemma match_literal_token:
  "match_literal lit pw s = Some (tok, r) \<Longrightarrow> \<exists>c. is_az c \<and> tok = c # lit"
  by (auto simp: match_literal_def split: list.splits if_splits)

lemma match_at_token: "match_at p pw s = Some (tok, r) \<Longrightarrow> token_ok p tok"
  by (auto simp: match_at_def token_ok_def split: option.splits word_pattern.splits
      dest: match_tag_is_tag match_repeat_token match_literal_token)

lemma empty_match_token: "w \<in> set (empty_match p a b) \<Longrightarrow> token_ok p w"
  by (auto simp: empty_match_def token_ok_def split: if_splits)

lemma findall_tokens: "w \<in> set (findall p pw s) \<Longrightarrow> token_ok p w"
proof (induction p pw s rule: findall.induct)
  case (1 p prev_word)
  then show ?case by (auto dest: empty_match_token)
next
  case (2 p prev_word c cs)
  show ?case
  proof (cases "match_at p prev_word (c # cs)")
    case None
    with 2 show ?thesis by (auto dest: empty_match_token)
  next
    case (Some m)
    obtain tok rest where m: "m = (tok, rest)" by (cases m)
    with 2 Some show ?thesis by (auto dest: match_at_token)
  qed
qed

lemma compile_words_3: "compile_words 3 = Inr (Repeat 3)"
  by (simp add: compile_words_def MAXREPEAT_def)

lemma extract_total: "\<exists>ks. extract_keywords_from_text text n m = Inr ks"
  by (simp add: extract_keywords_from_text_def split: sum.splits)

text \<open>
  C9. For every text, extract_keywords_from_text called with min_length=3 returns no
  plain token (one that does not start with \<open>#\<close> or \<open>@\<close>) shorter than 3 characters.
\<close>

theorem C9_min_length_three:
  "\<exists>ks. extract_keywords_from_text text 3 max_keywords = Inr ks
        \<and> (\<forall>w \<in> set ks. \<not> is_tag w \<longrightarrow> 3 \<le> length w)"
proof (cases "text = None \<or> text = Some []")
  case True
  then have "extract_keywords_from_text text 3 max_keywords = Inr []"
    by (auto simp: extract_keywords_from_text_def extract_keywords_try_def)
  then show ?thesis by simp
next
  case False
  then obtain t where t: "text = Some t" "t \<noteq> []" by (cases "text") auto
  define ws where "ws = findall (Repeat 3) False (strip_urls (lower t))"
  define ks where "ks = map fst (most_common max_keywords (Counter (filter keep_word ws)))"
  have e: "extract_keywords_from_text text 3 max_keywords = Inr ks"
    by (simp add: extract_keywords_from_text_def extract_keywords_try_def t compile_words_3
        Let_def ws_def ks_def)
  have "3 \<le> length w" if w: "w \<in> set ks" and nt: "\<not> is_tag w" for w
  proof -
    have "w \<in> set ws" using w ranked_subset [of max_keywords keep_word ws] by (auto simp: ks_def)
    then have "token_ok (Repeat 3) w" unfolding ws_def by (rule findall_tokens)
    with nt show ?thesis by (auto simp: token_ok_def)
  qed
  with e show ?thesis by blast
qed

theorem C9_min_length_three_witness:
  "extract_keywords_from_text (Some ''ab abc #a the go rust'') 3 20 = Inr [''abc'', ''#a'', ''rust'']
   \<and> \<not> is_tag ''abc'' \<and> 3 \<le> length ''abc''"
proof -
  have e: "extract_keywords_from_text (Some ''ab abc #a the go rust'') 3 20 = Inr [''abc'', ''#a'', ''rust'']"
    by code_simp
  obtain ks where k: "extract_keywords_from_text (Some ''ab abc #a the go rust'') 3 20 = Inr ks"
    and p: "\<forall>w \<in> set ks. \<not> is_tag w \<longrightarrow> 3 \<le> length w"
    using C9_min_length_three [of "Some ''ab abc #a the go rust''" 20] by blast
  from k e have "ks = [''abc'', ''#a'', ''rust'']" by simp
  with p have "\<not> is_tag ''abc'' \<longrightarrow> 3 \<le> length ''abc''" by simp
  moreover have "\<not> is_tag ''abc''" by (simp add: is_tag_def)
  ultimately show ?thesis using e by blast
qed

subsection \<open>Hashtags and mentions are found wherever they occur\<close>

definition tag_char :: "char \<Rightarrow> bool" where
  "tag_char x = (x = CHR ''#'' \<or> x = CHR ''@'')"





















text \<open>
  A text contains only stop words when each of its whitespace-separated words (the
  words of \<open>str.split()\<close>) is, in lower case, one of the stop words.
\<close>

fun split_words :: "string \<Rightarrow> string \<Rightarrow> string list" where
  "split_words acc [] = (if acc = [] then [] else [acc])"
| "split_words acc (c # cs) =
     (if is_space c then (if acc = [] then [] else [acc]) @ split_words [] cs
      else split_words (acc @ [c]) cs)"

definition only_stop_words :: "string \<Rightarrow> bool" where
  "only_stop_words t = list_all (\<lambda>w. lower w \<in> set stop_words) (split_words [] t)"

subsection \<open>Texts of stop words\<close>

lemma is_space_lower_char: "is_space (lower_char c) = is_space c"
  by (auto simp: is_space_def lower_char_def Let_def)

lemma az_not_space: "is_az c \<Longrightarrow> \<not> is_space c"
  by (auto simp: is_az_def is_space_def Let_def)

lemma az_is_word: "is_az c \<Longrightarrow> is_word c"
  by (auto simp: is_az_def is_word_def Let_def)

lemma az_not_tag: "is_az c \<Longrightarrow> \<not> tag_char c"
  by (auto simp: is_az_def tag_char_def)

lemma space_not_tag: "is_space c \<Longrightarrow> \<not> tag_char c"
  by (auto simp: is_space_def tag_char_def)

lemma split_words_lower:
  "split_words (map lower_char acc) (map lower_char s) = map (map lower_char) (split_words acc s)"
proof (induction s arbitrary: acc)
  case Nil
  then show ?case by simp
next
  case (Cons c cs)
  show ?case
    using Cons [of "[]"] Cons [of "acc @ [c]"] by (simp add: is_space_lower_char)
qed

abbreviation non_space :: "char \<Rightarrow> bool" where
  "non_space \<equiv> (\<lambda>c. \<not> is_space c)"

lemma split_words_unfold:
  "split_words acc s =
     (if acc @ takeWhile non_space s = [] then [] else [acc @ takeWhile non_space s])
     @ split_words [] (dropWhile non_space s)"
  by (induction s arbitrary: acc) auto

definition all_stop :: "string \<Rightarrow> bool" where
  "all_stop s = (\<forall>w \<in> set (split_words [] s). w \<in> set stop_words)"

lemma only_stop_words_lower: "only_stop_words t = all_stop (lower t)"
proof -
  have "split_words [] (lower t) = map (map lower_char) (split_words [] t)"
    using split_words_lower [of "[]" t] by (simp add: lower_def)
  then show ?thesis by (simp add: only_stop_words_def all_stop_def list_all_iff lower_def)
qed

lemma all_stop_space: "is_space c \<Longrightarrow> all_stop (c # cs) = all_stop cs"
  by (simp add: all_stop_def)

lemma all_stop_split:
  assumes "all_stop s"
  shows "takeWhile non_space s = [] \<or> takeWhile non_space s \<in> set stop_words"
    and "all_stop (dropWhile non_space s)"
  using assms split_words_unfold [of "[]" s] by (auto simp: all_stop_def split: if_splits)

lemma stop_words_az: "w \<in> set stop_words \<Longrightarrow> list_all is_az w"
proof -
  have "list_all (list_all is_az) stop_words" by code_simp
  then show "w \<in> set stop_words \<Longrightarrow> list_all is_az w" by (simp add: list_all_iff)
qed

lemma stop_words_no_url:
  "w \<in> set stop_words \<Longrightarrow> \<not> sublist ''http'' w \<and> \<not> sublist ''www'' w"
proof -
  have "list_all (\<lambda>w. \<not> sublist ''http'' w \<and> \<not> sublist ''www'' w) stop_words" by code_simp
  then show "w \<in> set stop_words \<Longrightarrow> \<not> sublist ''http'' w \<and> \<not> sublist ''www'' w"
    by (simp add: list_all_iff)
qed

text \<open>What is left of a text of stop words after the scan has consumed a prefix.\<close>

definition stop_rest :: "string \<Rightarrow> bool" where
  "stop_rest s =
     ((\<exists>w \<in> set stop_words. suffix (takeWhile non_space s) w) \<and> all_stop (dropWhile non_space s))"

lemma stop_rest_of_all_stop: "all_stop s \<Longrightarrow> stop_rest s"
proof -
  assume a: "all_stop s"
  have "''the'' \<in> set stop_words" by (simp add: stop_words_def)
  then have e: "\<exists>w \<in> set stop_words. suffix [] w" by auto
  from all_stop_split [OF a] e show ?thesis
    unfolding stop_rest_def by (metis suffix_order.order_refl)
qed

lemma stop_rest_tl: "stop_rest (c # cs) \<Longrightarrow> stop_rest cs"
proof (cases "is_space c")
  case True
  assume "stop_rest (c # cs)"
  with True have "all_stop (c # cs)" by (simp add: stop_rest_def)
  with True have "all_stop cs" by (simp add: all_stop_space)
  then show ?thesis by (rule stop_rest_of_all_stop)
next
  case False
  assume "stop_rest (c # cs)"
  with False show ?thesis by (auto simp: stop_rest_def dest: suffix_ConsD)
qed

lemma stop_rest_space: "stop_rest (c # cs) \<Longrightarrow> is_space c \<Longrightarrow> all_stop cs"
  by (simp add: stop_rest_def all_stop_space)

lemma stop_rest_head: "stop_rest (c # cs) \<Longrightarrow> is_az c \<or> is_space c"
proof (cases "is_space c")
  case True
  then show ?thesis by simp
next
  case False
  assume "stop_rest (c # cs)"
  with False obtain w where w: "w \<in> set stop_words" and s: "suffix (c # takeWhile non_space cs) w"
    by (auto simp: stop_rest_def)
  from s have "c \<in> set w" by (auto simp: suffix_def)
  with stop_words_az [OF w] show ?thesis by (simp add: list_all_iff)
qed

lemma prefix_takeWhile:
  "prefix p s \<Longrightarrow> \<forall>c \<in> set p. P c \<Longrightarrow> prefix p (takeWhile P s)"
  by (auto simp: prefix_def takeWhile_append2)

lemma stop_rest_no_prefix:
  assumes "stop_rest s" and "prefix p s" and "\<forall>c \<in> set p. non_space c"
  shows "\<exists>w \<in> set stop_words. sublist p w"
proof -
  from assms(1) obtain w where w: "w \<in> set stop_words" and s: "suffix (takeWhile non_space s) w"
    by (auto simp: stop_rest_def)
  have "prefix p (takeWhile non_space s)" using assms(2,3) by (rule prefix_takeWhile)
  then have "sublist p (takeWhile non_space s)" by (rule prefix_imp_sublist)
  moreover have "sublist (takeWhile non_space s) w" using s by (rule suffix_imp_sublist)
  ultimately have "sublist p w" by (rule sublist_order.order_trans)
  with w show ?thesis by blast
qed

lemma match_url_stop_rest: "stop_rest s \<Longrightarrow> match_url s = None"
proof -
  assume a: "stop_rest s"
  have h: "\<not> prefix ''http'' s"
  proof
    assume "prefix ''http'' s"
    with a have "\<exists>w \<in> set stop_words. sublist ''http'' w"
      by (rule stop_rest_no_prefix) (simp add: is_space_def)
    then show False using stop_words_no_url by blast
  qed
  have w: "\<not> prefix ''www'' s"
  proof
    assume "prefix ''www'' s"
    with a have "\<exists>w \<in> set stop_words. sublist ''www'' w"
      by (rule stop_rest_no_prefix) (simp add: is_space_def)
    then show False using stop_words_no_url by blast
  qed
  from h w show ?thesis by (simp add: match_url_def)
qed

lemma strip_urls_stop_rest: "stop_rest s \<Longrightarrow> strip_urls s = s"
proof (induction s)
  case Nil
  then show ?case by simp
next
  case (Cons c cs)
  then show ?case by (simp add: match_url_stop_rest stop_rest_tl)
qed

lemma az_run:
  "list_all is_az (takeWhile non_space s) \<Longrightarrow>
   takeWhile is_az s = takeWhile non_space s \<and> dropWhile is_az s = dropWhile non_space s"
  by (induction s) (auto dest: az_not_space split: if_splits)

lemma match_tag_stop_rest: "stop_rest s \<Longrightarrow> match_tag s = None"
proof (cases s)
  case Nil
  then show ?thesis by (simp add: match_tag_def)
next
  case (Cons c cs)
  assume "stop_rest s"
  with Cons have "is_az c \<or> is_space c" using stop_rest_head by blast
  then have "\<not> tag_char c" using az_not_tag space_not_tag by blast
  then show ?thesis by (auto simp: Cons match_tag_def tag_char_def split: list.splits)
qed

lemma match_repeat_all_stop:
  assumes "all_stop s" and "match_repeat n pw s = Some (tok, rest)"
  shows "tok \<in> set stop_words \<and> all_stop rest"
proof -
  from assms(2) have t: "tok = takeWhile is_az s" and r: "rest = dropWhile is_az s"
    and ne: "takeWhile is_az s \<noteq> []"
    by (auto simp: match_repeat_def Let_def split: if_splits)
  from ne obtain c cs where s: "s = c # cs" and c: "is_az c"
    by (cases s) (auto split: if_splits)
  then have "takeWhile non_space s \<noteq> []" by (simp add: az_not_space)
  with all_stop_split [OF assms(1)] have w: "takeWhile non_space s \<in> set stop_words"
    and d: "all_stop (dropWhile non_space s)" by simp_all
  from az_run [OF stop_words_az [OF w]] w d show ?thesis by (simp add: t r)
qed

lemma findall_repeat_stop:
  "p = Repeat n \<Longrightarrow> 1 \<le> n \<Longrightarrow> (if pw then stop_rest s else all_stop s) \<Longrightarrow>
   set (findall p pw s) \<subseteq> set stop_words"
proof (induction p pw s rule: findall.induct)
  case (1 p prev_word)
  then show ?case by (simp add: empty_match_def)
next
  case (2 p prev_word c cs)
  note p = \<open>p = Repeat n\<close> and n = \<open>1 \<le> n\<close>
  have sr: "stop_rest (c # cs)"
    using 2(5) stop_rest_of_all_stop by (auto split: if_splits)
  have tag: "match_tag (c # cs) = None" using sr by (rule match_tag_stop_rest)
  show ?case
  proof (cases "match_at p prev_word (c # cs)")
    case None
    have "if is_word c then stop_rest cs else all_stop cs"
    proof (cases "is_word c")
      case True
      then show ?thesis using stop_rest_tl [OF sr] by simp
    next
      case False
      with stop_rest_head [OF sr] have "is_space c" using az_is_word by blast
      with False show ?thesis using stop_rest_space [OF sr] by simp
    qed
    with None p n have "set (findall p (is_word c) cs) \<subseteq> set stop_words"
      by (rule "2.IH"(1))
    with None p n show ?thesis by (simp add: empty_match_def)
  next
    case (Some m)
    obtain tok rest where m: "m = (tok, rest)" by (cases m)
    with Some tag p have mr: "match_repeat n prev_word (c # cs) = Some (tok, rest)"
      by (simp add: match_at_def)
    then have "\<not> prev_word" by (auto simp: match_repeat_def Let_def split: if_splits)
    with 2(5) have "all_stop (c # cs)" by simp
    from match_repeat_all_stop [OF this mr] have t: "tok \<in> set stop_words" and r: "all_stop rest"
      by simp_all
    from r have "if is_word (last tok) then stop_rest rest else all_stop rest"
      by (simp add: stop_rest_of_all_stop)
    with Some m [symmetric] p n have "set (findall p (is_word (last tok)) rest) \<subseteq> set stop_words"
      by (rule "2.IH"(2))
    with Some m t show ?thesis by simp
  qed
qed

lemma findall_literal_stop:
  "p = Literal (CHR ''{'' # l) \<Longrightarrow> stop_rest s \<Longrightarrow> findall p pw s = []"
proof (induction p pw s rule: findall.induct)
  case (1 p prev_word)
  then show ?case by (simp add: empty_match_def)
next
  case (2 p prev_word c cs)
  note p = \<open>p = Literal (CHR ''{'' # l)\<close> and sr = \<open>stop_rest (c # cs)\<close>
  have tag: "match_tag (c # cs) = None" using sr by (rule match_tag_stop_rest)
  have "match_literal (CHR ''{'' # l) prev_word (c # cs) = None"
  proof (cases cs)
    case Nil
    then show ?thesis by (simp add: match_literal_def)
  next
    case (Cons d ds)
    with stop_rest_tl [OF sr] have "is_az d \<or> is_space d" using stop_rest_head by blast
    then have "d \<noteq> CHR ''{''" by (auto simp: is_az_def is_space_def)
    with Cons show ?thesis by (simp add: match_literal_def)
  qed
  with tag p have none: "match_at p prev_word (c # cs) = None" by (simp add: match_at_def)
  from none p stop_rest_tl [OF sr] have "findall p (is_word c) cs = []" by (rule "2.IH"(1))
  with none p show ?case by (simp add: empty_match_def)
qed

lemma stop_word_not_kept: "w \<in> set stop_words \<Longrightarrow> \<not> keep_word w"
proof -
  assume w: "w \<in> set stop_words"
  have "\<not> is_tag w"
  proof (cases w)
    case Nil
    then show ?thesis by (simp add: is_tag_def)
  next
    case (Cons c cs)
    with stop_words_az [OF w] have "is_az c" by simp
    then have "\<not> tag_char c" by (rule az_not_tag)
    with Cons show ?thesis by (simp add: is_tag_def tag_char_def)
  qed
  with w show ?thesis by (simp add: keep_word_def)
qed

lemma findall_stop_text:
  assumes "all_stop s" and "compile_words n = Inr p" and "n \<noteq> 0"
  shows "filter keep_word (findall p False s) = []"
proof (cases "n < 0")
  case True
  with assms(2) have "p = Literal (CHR ''{'' # str_int n @ '',}'')"
    by (simp add: compile_words_def)
  then have "findall p False s = []"
    using stop_rest_of_all_stop [OF assms(1)] by (rule findall_literal_stop)
  then show ?thesis by simp
next
  case False
  with assms(2,3) have p: "p = Repeat (nat n)" and n: "1 \<le> nat n"
    by (auto simp: compile_words_def split: if_splits)
  from p n have "set (findall p False s) \<subseteq> set stop_words"
    by (rule findall_repeat_stop) (simp add: assms(1))
  then show ?thesis by (auto simp: filter_empty_conv dest: stop_word_not_kept)
qed

text \<open>
  C8. For every text that is empty or missing, and for every text containing only stop
  words, extract_keywords_from_text returns an empty sequence and does not raise. (The
  second part holds for the default min_length 3 and for every other min_length but 0.)
\<close>

theorem C8_empty_or_stop_words:
  "extract_keywords_from_text None min_length max_keywords = Inr []
   \<and> extract_keywords_from_text (Some []) min_length max_keywords = Inr []
   \<and> (only_stop_words t \<and> min_length \<noteq> 0 \<longrightarrow>
        extract_keywords_from_text (Some t) min_length max_keywords = Inr [])"
proof (intro conjI impI)
  show "extract_keywords_from_text None min_length max_keywords = Inr []"
    by (simp add: extract_keywords_from_text_def extract_keywords_try_def)
  show "extract_keywords_from_text (Some []) min_length max_keywords = Inr []"
    by (simp add: extract_keywords_from_text_def extract_keywords_try_def)
next
  assume h: "only_stop_words t \<and> min_length \<noteq> 0"
  then have nz: "min_length \<noteq> 0" by simp
  from h have a: "all_stop (lower t)" by (simp add: only_stop_words_lower)
  then have s: "strip_urls (lower t) = lower t"
    by (intro strip_urls_stop_rest stop_rest_of_all_stop)
  show "extract_keywords_from_text (Some t) min_length max_keywords = Inr []"
  proof (cases "compile_words min_length")
    case (Inl e)
    then show ?thesis
      by (simp add: extract_keywords_from_text_def extract_keywords_try_def Let_def)
  next
    case (Inr p)
    have "filter keep_word (findall p False (lower t)) = []"
      using a Inr nz by (rule findall_stop_text)
    with Inr s show ?thesis
      by (simp add: extract_keywords_from_text_def extract_keywords_try_def Let_def
          Counter_def most_common_def)
  qed
qed

theorem C8_empty_or_stop_words_witness:
  "only_stop_words ''The and OF  it'' \<and> (3::int) \<noteq> 0
   \<and> extract_keywords_from_text (Some ''The and OF  it'') 3 20 = Inr []"
proof -
  have a: "only_stop_words ''The and OF  it''" by code_simp
  with C8_empty_or_stop_words [of 3 20 "''The and OF  it''"] show ?thesis by simp
qed

section \<open>Properties of GoogleTrendsService.batch_get_interest\<close>

text \<open>The specification's words: the \<open>j\<close>-th batch, and the score fetched for a keyword of a batch.\<close>

definition batch :: "string list \<Rightarrow> nat \<Rightarrow> string list" where
  "batch keywords j = take 5 (drop (5 * j) keywords)"

definition batch_score :: "pytrends \<Rightarrow> string list \<Rightarrow> nat \<Rightarrow> string \<Rightarrow> real" where
  "batch_score client keywords j kw =
     (case client j (batch keywords j) of
        Inl e \<Rightarrow> 0
      | Inr interest_df \<Rightarrow> if df_empty interest_df then 0 else column_score interest_df kw)"


subsection \<open>The batched lookup\<close>

lemma fold_upd_apply:
  "fold (\<lambda>kw m. m(kw \<mapsto> f kw)) ks m0 k = (if k \<in> set ks then Some (f k) else m0 k)"
  by (induction ks arbitrary: m0) auto

lemma dict_of_apply: "dict_of f ks k = (if k \<in> set ks then Some (f k) else None)"
  by (simp add: dict_of_def fold_upd_apply)

lemma batch_length: "length (batch keywords j) \<le> 5"
  by (simp add: batch_def)

lemma get_interest_batch:
  "\<exists>m. get_interest_over_time client j (batch keywords j) = Inr m
       \<and> (\<forall>kw. m kw = (if kw \<in> set (batch keywords j)
                        then Some (batch_score client keywords j kw) else None))"
proof (cases "batch keywords j = []")
  case True
  then show ?thesis by (simp add: get_interest_over_time_def interest_try_def)
next
  case False
  have t: "take 5 (batch keywords j) = batch keywords j" by (simp add: batch_def)
  show ?thesis
  proof (cases "client j (batch keywords j)")
    case (Inl e)
    with False t show ?thesis
      by (simp add: get_interest_over_time_def interest_try_def batch_score_def dict_of_apply)
  next
    case (Inr interest_df)
    with False t show ?thesis
      by (simp add: get_interest_over_time_def interest_try_def batch_score_def dict_of_apply
          Let_def)
  qed
qed

lemma drop_batch: "drop i keywords = take 5 (drop i keywords) @ drop (i + 5) keywords"
  by (metis add.commute append_take_drop_id drop_drop)

lemma batch_loop_result:
  "distinct ks \<Longrightarrow> i = 5 * n \<Longrightarrow>
   \<exists>m. batch_loop client ks i results = Inr m
       \<and> (\<forall>kw. kw \<notin> set (drop i ks) \<longrightarrow> m kw = results kw)
       \<and> (\<forall>j kw. n \<le> j \<and> kw \<in> set (batch ks j)
             \<longrightarrow> m kw = Some (batch_score client ks j kw))"
proof (induction client ks i results arbitrary: n rule: batch_loop.induct)
  case (1 client ks i results)
  note d = \<open>distinct ks\<close> and i = \<open>i = 5 * n\<close>
  show ?case
  proof (cases "i < length ks")
    case False
    then have "batch ks j = []" if "n \<le> j" for j
      using that i by (simp add: batch_def)
    then have "\<forall>j kw. n \<le> j \<and> kw \<in> set (batch ks j)
             \<longrightarrow> results kw = Some (batch_score client ks j kw)"
      by auto
    with False show ?thesis by (simp add: batch_loop.simps [of client ks i])
  next
    case True
    define b where "b = take 5 (drop i ks)"
    have bn: "b = batch ks n" by (simp add: b_def batch_def i)
    obtain br where g: "get_interest_over_time client (i div 5) b = Inr br"
      and br: "\<And>kw. br kw = (if kw \<in> set b then Some (batch_score client ks n kw) else None)"
      using get_interest_batch [of client n ks] i bn by auto
    have "\<exists>m. batch_loop client ks (i + 5) (results ++ br) = Inr m
       \<and> (\<forall>kw. kw \<notin> set (drop (i + 5) ks) \<longrightarrow> m kw = (results ++ br) kw)
       \<and> (\<forall>j kw. Suc n \<le> j \<and> kw \<in> set (batch ks j)
             \<longrightarrow> m kw = Some (batch_score client ks j kw))"
      using True b_def g d by (rule "1.IH") (simp add: i)
    then obtain m where m: "batch_loop client ks (i + 5) (results ++ br) = Inr m"
      and keep: "\<And>kw. kw \<notin> set (drop (i + 5) ks) \<Longrightarrow> m kw = (results ++ br) kw"
      and later: "\<And>j kw. Suc n \<le> j \<Longrightarrow> kw \<in> set (batch ks j)
             \<Longrightarrow> m kw = Some (batch_score client ks j kw)"
      by blast
    have e: "batch_loop client ks i results = Inr m"
      using True g m by (simp add: batch_loop.simps [of client ks i] b_def)
    have split: "drop i ks = b @ drop (i + 5) ks"
      unfolding b_def by (rule drop_batch)
    have dd: "distinct (b @ drop (i + 5) ks)"
      using d split by (metis distinct_drop)
    have p1: "m kw = results kw" if "kw \<notin> set (drop i ks)" for kw
    proof -
      from that split have "kw \<notin> set b" "kw \<notin> set (drop (i + 5) ks)" by auto
      then show ?thesis using keep [of kw] br [of kw] by (simp add: map_add_def)
    qed
    have p2: "m kw = Some (batch_score client ks j kw)"
      if "n \<le> j" and "kw \<in> set (batch ks j)" for j kw
    proof (cases "j = n")
      case True
      with that bn have kb: "kw \<in> set b" by simp
      with dd have "kw \<notin> set (drop (i + 5) ks)" by auto
      then show ?thesis using keep [of kw] br [of kw] kb True by (simp add: map_add_def)
    next
      case False
      with that have "Suc n \<le> j" by simp
      then show ?thesis using that(2) by (rule later)
    qed
    from e p1 p2 show ?thesis by blast
  qed
qed

lemma batches_partition:
  "concat (map (batch keywords) [0..<n]) = take (5 * n) keywords"
proof (induction n)
  case 0
  then show ?case by simp
next
  case (Suc n)
  have "take (5 * n) keywords @ take 5 (drop (5 * n) keywords) = take (5 * n + 5) keywords"
    by (simp add: take_add)
  with Suc show ?case by (simp add: batch_def add.commute)
qed

text \<open>
  C6 (as amended). For every keyword list without repeated keywords,
  batch_get_interest returns a mapping and does not raise; the consecutive batches of
  at most 5 keywords make up the list, and every keyword of a batch is mapped to 0.0
  when the provider failed for that batch and to its fetched score otherwise.
\<close>

theorem C6_batches_isolated:
  "(distinct keywords \<longrightarrow>
      (\<exists>m. batch_get_interest client keywords = Inr m
          \<and> (\<forall>j kw. kw \<in> set (batch keywords j) \<longrightarrow>
                m kw = Some (case client j (batch keywords j) of
                               Inl e \<Rightarrow> 0
                             | Inr interest_df \<Rightarrow>
                                 if df_empty interest_df then 0
                                 else column_score interest_df kw))))
   \<and> (\<forall>j. length (batch keywords j) \<le> 5)
   \<and> concat (map (batch keywords) [0..<(length keywords + 4) div 5]) = keywords
   \<and> (\<exists>m. batch_get_interest client keywords = Inr m)"
proof (intro conjI impI allI)
  show "length (batch keywords j) \<le> 5" for j by (rule batch_length)
  show "concat (map (batch keywords) [0..<(length keywords + 4) div 5]) = keywords"
    by (simp add: batches_partition)
  show "\<exists>m. batch_get_interest client keywords = Inr m"
    by (simp add: batch_get_interest_def split: sum.splits)
next
  assume d: "distinct keywords"
  show "\<exists>m. batch_get_interest client keywords = Inr m
          \<and> (\<forall>j kw. kw \<in> set (batch keywords j) \<longrightarrow>
                m kw = Some (case client j (batch keywords j) of
                               Inl e \<Rightarrow> 0
                             | Inr interest_df \<Rightarrow>
                                 if df_empty interest_df then 0
                                 else column_score interest_df kw))"
  proof (cases "keywords = []")
    case True
    then show ?thesis by (simp add: batch_get_interest_def batch_try_def batch_def)
  next
    case False
    obtain m where m: "batch_loop client keywords 0 Map.empty = Inr m"
      and v: "\<And>j kw. kw \<in> set (batch keywords j)
                \<Longrightarrow> m kw = Some (batch_score client keywords j kw)"
      using batch_loop_result [OF d, of 0 0 client Map.empty] by auto
    from False m have "batch_get_interest client keywords = Inr m"
      by (simp add: batch_get_interest_def batch_try_def)
    with v show ?thesis by (auto simp: batch_score_def)
  qed
qed

text \<open>A provider that answers the first request of a call and fails afterwards.\<close>

definition example_client :: pytrends where
  "example_client k kws =
     (if k = 0 then Inr \<lparr>df_empty = False, df_columns = [(''a'', 50), (''b'', 12.3)]\<rparr>
      else Inl ProviderError)"

theorem C6_batches_isolated_witness:
  "distinct [''a'', ''b'', ''c'', ''d'', ''e'', ''f'']
   \<and> (\<exists>m. batch_get_interest example_client [''a'', ''b'', ''c'', ''d'', ''e'', ''f''] = Inr m
          \<and> m ''a'' = Some 50 \<and> m ''c'' = Some 0 \<and> m ''f'' = Some 0)"
proof -
  define ks where "ks = [''a'', ''b'', ''c'', ''d'', ''e'', ''f'']"
  have d: "distinct ks" by (simp add: ks_def)
  have b0: "batch ks 0 = [''a'', ''b'', ''c'', ''d'', ''e'']" and b1: "batch ks (Suc 0) = [''f'']"
    by (simp_all add: ks_def batch_def)
  from C6_batches_isolated [of ks example_client] d
  obtain m where m: "batch_get_interest example_client ks = Inr m"
    and v: "\<And>j kw. kw \<in> set (batch ks j) \<Longrightarrow>
                m kw = Some (case example_client j (batch ks j) of
                               Inl e \<Rightarrow> 0
                             | Inr interest_df \<Rightarrow>
                                 if df_empty interest_df then 0
                                 else column_score interest_df kw)"
    by blast
  have "m ''a'' = Some 50"
    using v [of "''a''" 0]
    by (simp add: b0 example_client_def column_score_def round2_def round_half_even_def)
  moreover have "m ''c'' = Some 0"
    using v [of "''c''" 0] by (simp add: b0 example_client_def column_score_def)
  moreover have "m ''f'' = Some 0"
    using v [of "''f''" "Suc 0"] by (simp add: b1 example_client_def)
  ultimately show ?thesis using d m unfolding ks_def by blast
qed

theorem C6_counterexample:
  "''a'' \<in> set (batch [''a'', ''b'', ''c'', ''d'', ''e'', ''a''] 0)
   \<and> batch_score example_client [''a'', ''b'', ''c'', ''d'', ''e'', ''a''] 0 ''a'' = 50
   \<and> projr (batch_get_interest example_client [''a'', ''b'', ''c'', ''d'', ''e'', ''a'']) ''a''
       = Some 0"
  by (simp add: batch_get_interest_def batch_try_def batch_loop.simps get_interest_over_time_def
      interest_try_def example_client_def dict_of_def column_score_def batch_def batch_score_def
      round2_def round_half_even_def)

section \<open>Properties of calculate_velocity\<close>





definition no_fault :: "nat \<Rightarrow> store \<Rightarrow> bool" where
  "no_fault n s = list_all (\<lambda>failed. \<not> failed) (take n (faults s))"







text \<open>One item of the last three days and three of the days before mention \<open>ai\<close>.\<close>

definition example_env :: env where
  "example_env = \<lparr>now = 1000000, pytrends_client = example_client,
                  valid_uuid = (\<lambda>u. True), parses = (\<lambda>r. True)\<rparr>"

definition example_item :: "string \<Rightarrow> string \<Rightarrow> int \<Rightarrow> content_row" where
  "example_item i b t =
     \<lparr>content_id = i, content_user_id = ''u'', title = Some ''News'', body = Some b,
      content_created_at = t\<rparr>"

definition velocity_store :: store where
  "velocity_store =
     \<lparr>content = [example_item ''c1'' ''AI today'' 900000, example_item ''c2'' ''ai'' 600000,
                 example_item ''c3'' ''on Ai'' 500000, example_item ''c4'' ''fair'' 450000,
                 example_item ''c5'' ''rust'' 950000],
      trends = [], next_id = 0, faults = []\<rparr>"



section \<open>Properties of get_top_trends\<close>

definition in_window :: "env \<Rightarrow> string \<Rightarrow> trend_row \<Rightarrow> bool" where
  "in_window e user_id r = (trend_user_id r = user_id \<and> now e - days 7 \<le> detected_at r)"

definition ranked :: "env \<Rightarrow> string \<Rightarrow> nat \<Rightarrow> store \<Rightarrow> trend_row list" where
  "ranked e user_id limit s =
     take limit (sort_key (\<lambda>r. - score r) (filter (in_window e user_id) (trends s)))"

lemma get_top_trends_cases:
  "(\<exists>s'. get_top_trends e user_id limit s = (Inr [], s') \<and> trends s' = trends s)
   \<or> (\<exists>s'. get_top_trends e user_id limit s = (Inr (filter (parses e) (ranked e user_id limit s)), s')
           \<and> trends s' = trends s)"
  by (cases "faults s")
     (auto simp: get_top_trends_def get_top_try_def try_except_def io_bind_def io_return_def
       select_top_trends_def execute_def ranked_def in_window_def [abs_def])

lemma get_top_trends_ok:
  assumes "no_fault 1 s"
  shows "fst (get_top_trends e user_id limit s) = Inr (filter (parses e) (ranked e user_id limit s))"
  using assms
  by (cases "faults s")
     (auto simp: get_top_trends_def get_top_try_def try_except_def io_bind_def io_return_def
       select_top_trends_def execute_def ranked_def in_window_def [abs_def] no_fault_def)

lemma ranked_sorted: "sorted_wrt (\<lambda>a b. score b \<le> score a) (ranked e user_id limit s)"
proof -
  have "sorted (map (\<lambda>r. - score r) (sort_key (\<lambda>r. - score r) (filter (in_window e user_id) (trends s))))"
    by (rule sorted_sort_key)
  then have "sorted (map (\<lambda>r. - score r) (ranked e user_id limit s))"
    unfolding ranked_def take_map [symmetric] by (rule sorted_wrt_take)
  then show ?thesis by (simp add: sorted_map)
qed

lemma ranked_set:
  "set (ranked e user_id limit s) \<subseteq> {r \<in> set (trends s). in_window e user_id r}"
proof -
  have "set (ranked e user_id limit s)
          \<subseteq> set (sort_key (\<lambda>r. - score r) (filter (in_window e user_id) (trends s)))"
    unfolding ranked_def by (rule set_take_subset)
  then show ?thesis by auto
qed

lemma ranked_length: "length (ranked e user_id limit s) \<le> limit"
  by (simp add: ranked_def)

text \<open>
  Three trends of owner \<open>u\<close> (one of them stale, with the highest score) and one of
  another owner.
\<close>

definition example_trend :: "nat \<Rightarrow> string \<Rightarrow> string \<Rightarrow> real \<Rightarrow> int \<Rightarrow> trend_row" where
  "example_trend i u k x t =
     \<lparr>trend_id = i, trend_user_id = u, keyword = k, score = x, google_trends_score = 0,
      content_mentions = 2, velocity = 0, related_content_ids = [], detected_at = t,
      trend_created_at = t\<rparr>"

definition ranking_store :: store where
  "ranking_store =
     \<lparr>content = [],
      trends = [example_trend 0 ''u'' ''crypto'' 45 900000,
                example_trend 1 ''u'' ''old'' 99 300000,
                example_trend 2 ''v'' ''other'' 80 900000,
                example_trend 3 ''u'' ''ai'' 72.3 800000],
      next_id = 4, faults = []\<rparr>"

text \<open>
  C7. For every owner and limit, get_top_trends returns only trend records of that
  owner whose detected_at lies within the trailing 7 days, ordered by score descending
  and at most limit of them: the first limit records of that ranking when the query
  succeeds and the records parse. A record older than 7 days is excluded even with the
  highest score, and with records scoring 72.3 and 45.0 inside the window, limit=1
  returns only the one scoring 72.3.
\<close>

theorem C7_top_trends:
  "(\<exists>ts. fst (get_top_trends e user_id limit s) = Inr ts
         \<and> (\<forall>t \<in> set ts. t \<in> set (trends s) \<and> trend_user_id t = user_id
                           \<and> now e - days 7 \<le> detected_at t)
         \<and> sorted_wrt (\<lambda>a b. score b \<le> score a) ts
         \<and> length ts \<le> limit)
   \<and> (no_fault 1 s \<and> list_all (parses e) (trends s) \<longrightarrow>
        fst (get_top_trends e user_id limit s)
          = Inr (take limit (sort_key (\<lambda>r. - score r)
                   (filter (\<lambda>r. trend_user_id r = user_id \<and> now e - days 7 \<le> detected_at r)
                      (trends s)))))
   \<and> map keyword (projr (fst (get_top_trends example_env ''u'' 1 ranking_store))) = [''ai'']
   \<and> map keyword (projr (fst (get_top_trends example_env ''u'' 3 ranking_store)))
       = [''ai'', ''crypto'']"
proof (intro conjI impI)
  define r where "r = ranked e user_id limit s"
  have s: "sorted_wrt (\<lambda>a b. score b \<le> score a) (filter (parses e) r)"
    unfolding r_def using ranked_sorted by (rule sorted_wrt_filter)
  have m: "\<forall>t \<in> set (filter (parses e) r). t \<in> set (trends s) \<and> trend_user_id t = user_id
                           \<and> now e - days 7 \<le> detected_at t"
    unfolding r_def using ranked_set [of e user_id limit s] by (auto simp: in_window_def)
  have l: "length (filter (parses e) r) \<le> limit"
    unfolding r_def using ranked_length [of e user_id limit s] length_filter_le
    by (meson order_trans)
  from get_top_trends_cases [of e user_id limit s]
  show "\<exists>ts. fst (get_top_trends e user_id limit s) = Inr ts
         \<and> (\<forall>t \<in> set ts. t \<in> set (trends s) \<and> trend_user_id t = user_id
                           \<and> now e - days 7 \<le> detected_at t)
         \<and> sorted_wrt (\<lambda>a b. score b \<le> score a) ts
         \<and> length ts \<le> limit"
  proof
    assume "\<exists>s'. get_top_trends e user_id limit s = (Inr [], s') \<and> trends s' = trends s"
    then show ?thesis by auto
  next
    assume "\<exists>s'. get_top_trends e user_id limit s
                   = (Inr (filter (parses e) (ranked e user_id limit s)), s')
                 \<and> trends s' = trends s"
    then have "fst (get_top_trends e user_id limit s) = Inr (filter (parses e) r)"
      by (auto simp: r_def)
    with s m l show ?thesis by blast
  qed
next
  assume h: "no_fault 1 s \<and> list_all (parses e) (trends s)"
  then have "\<forall>t \<in> set (ranked e user_id limit s). parses e t"
    using ranked_set [of e user_id limit s] by (auto simp: list_all_iff)
  then have "filter (parses e) (ranked e user_id limit s) = ranked e user_id limit s"
    by (simp add: filter_id_conv)
  with h show "fst (get_top_trends e user_id limit s)
          = Inr (take limit (sort_key (\<lambda>r. - score r)
                   (filter (\<lambda>r. trend_user_id r = user_id \<and> now e - days 7 \<le> detected_at r)
                      (trends s))))"
    by (simp add: get_top_trends_ok ranked_def in_window_def [abs_def])
next
  show "map keyword (projr (fst (get_top_trends example_env ''u'' 1 ranking_store))) = [''ai'']"
    by code_simp
  show "map keyword (projr (fst (get_top_trends example_env ''u'' 3 ranking_store)))
       = [''ai'', ''crypto'']"
    by code_simp
qed

theorem C7_top_trends_witness:
  "no_fault 1 ranking_store \<and> list_all (parses example_env) (trends ranking_store)
   \<and> fst (get_top_trends example_env ''u'' 1 ranking_store)
       = Inr [example_trend 3 ''u'' ''ai'' 72.3 800000]
   \<and> example_trend 3 ''u'' ''ai'' 72.3 800000 \<in> set (trends ranking_store)
   \<and> now example_env - days 7 \<le> detected_at (example_trend 3 ''u'' ''ai'' 72.3 800000)"
proof -
  have a: "no_fault 1 ranking_store" by (simp add: no_fault_def ranking_store_def)
  have b: "list_all (parses example_env) (trends ranking_store)"
    by (simp add: example_env_def ranking_store_def)
  have c: "take 1 (sort_key (\<lambda>r. - score r)
                   (filter (\<lambda>r. trend_user_id r = ''u'' \<and> now example_env - days 7 \<le> detected_at r)
                      (trends ranking_store)))
           = [example_trend 3 ''u'' ''ai'' 72.3 800000]"
    by code_simp
  from C7_top_trends [of example_env "''u''" 1 ranking_store] a b
  have d: "fst (get_top_trends example_env ''u'' 1 ranking_store)
           = Inr [example_trend 3 ''u'' ''ai'' 72.3 800000]"
    by (simp only: c)
  have "example_trend 3 ''u'' ''ai'' 72.3 800000 \<in> set (trends ranking_store)"
    by (simp add: ranking_store_def)
  moreover have "now example_env - days 7 \<le> detected_at (example_trend 3 ''u'' ''ai'' 72.3 800000)"
    by (simp add: example_env_def example_trend_def days_def)
  ultimately show ?thesis using a b d by blast
qed

section \<open>Properties of the orchestration\<close>

subsection \<open>What is caught\<close>

lemma try_except_returns:
  "\<exists>y. fst (try_except m (\<lambda>x. io_return d) s) = Inr y"
  by (simp add: try_except_def io_return_def split: prod.splits sum.splits)

text \<open>
  C4. For every owner, detect_and_save_trends never raises to its caller: whatever fails
  (any fault schedule of the store, any behaviour of the provider, any rejected
  identifier or unparsable row) it returns a summary with the fields detected, saved
  and top_3; so do the stages it calls.
\<close>

theorem C4_never_raises:
  "(\<exists>r. fst (detect_and_save_trends e user_id s) = Inr r)
   \<and> (\<exists>r. fst (extract_keywords_from_content e user_id n_days min_mentions s) = Inr r)
   \<and> (\<exists>r. fst (calculate_velocity e user_id kw s) = Inr r)
   \<and> (\<exists>r. fst (detect_trends e user_id max_trends s) = Inr r)
   \<and> (\<exists>r. fst (save_trends e user_id trend_list s) = Inr r)
   \<and> (\<exists>r. fst (get_top_trends e user_id limit s) = Inr r)"
  unfolding detect_and_save_trends_def extract_keywords_from_content_def
    calculate_velocity_def detect_trends_def save_trends_def get_top_trends_def
  by (intro conjI try_except_returns)

theorem C4_never_raises_witness:
  "\<exists>r. fst (detect_and_save_trends example_env ''u'' velocity_store) = Inr r"
  using C4_never_raises [of example_env "''u''" velocity_store] by blast

subsection \<open>An unreachable content store\<close>

lemma extract_unreachable:
  "faults s = True # fs \<Longrightarrow>
   extract_keywords_from_content e user_id n_days min_mentions s
     = (Inr [], s\<lparr>faults := fs\<rparr>)"
  by (simp add: extract_keywords_from_content_def extract_content_try_def try_except_def
      io_bind_def io_return_def select_content_def execute_def)

lemma detect_unreachable:
  "faults s = True # fs \<Longrightarrow> detect_trends e user_id max_trends s = (Inr [], s\<lparr>faults := fs\<rparr>)"
  by (simp add: detect_trends_def detect_try_def try_except_def io_bind_def io_return_def
      extract_unreachable)

definition unreachable_store :: store where
  "unreachable_store = velocity_store\<lparr>faults := [True, True, True, True]\<rparr>"

text \<open>
  C5 (as amended). If the content store is unreachable during the initial
  keyword-extraction step (the query in extract_keywords_from_content fails), the
  failure is caught there: extract_keywords_from_content returns the empty list,
  detect_trends returns the empty list, and the top-level detect-and-save operation
  returns the summary with detected = 0, saved = 0 and an empty top_3, without raising
  and without touching the store again.
\<close>

theorem C5_unreachable_store_degrades:
  "faults s = True # fs \<longrightarrow>
     extract_keywords_from_content e user_id 7 2 s = (Inr [], s\<lparr>faults := fs\<rparr>)
     \<and> detect_trends e user_id 10 s = (Inr [], s\<lparr>faults := fs\<rparr>)
     \<and> detect_and_save_trends e user_id s
         = (Inr \<lparr>detected = 0, saved = 0, top_3 = []\<rparr>, s\<lparr>faults := fs\<rparr>)"
  by (simp add: detect_and_save_trends_def detect_and_save_try_def try_except_def io_bind_def
      io_return_def extract_unreachable detect_unreachable)

theorem C5_unreachable_store_degrades_witness:
  "faults unreachable_store = True # [True, True, True]
   \<and> detect_and_save_trends example_env ''u'' unreachable_store
       = (Inr \<lparr>detected = 0, saved = 0, top_3 = []\<rparr>,
          unreachable_store\<lparr>faults := [True, True, True]\<rparr>)"
proof -
  have a: "faults unreachable_store = True # [True, True, True]"
    by (simp add: unreachable_store_def)
  with C5_unreachable_store_degrades [of unreachable_store "[True, True, True]" example_env "''u''"]
  show ?thesis by simp
qed

theorem C5_counterexample:
  "fst (detect_and_save_trends example_env ''u'' unreachable_store)
     = Inr \<lparr>detected = 0, saved = 0, top_3 = []\<rparr>
   \<and> \<not> isl (fst (detect_and_save_trends example_env ''u'' unreachable_store))"
  by (simp add: detect_and_save_trends_def detect_and_save_try_def try_except_def io_bind_def
      io_return_def detect_unreachable unreachable_store_def)

subsection \<open>The upsert\<close>










































end
